theory Spec2Isabelle
  imports Main
begin

section \<open>Python values, exceptions and containers\<close>

text \<open>
  The module \<^verbatim>\<open>pwn/crypto/monoalphabetic.py\<close> is Python 2. A call either returns a
  value or raises; a raise is the left summand of the result. Only the exceptions that
  an expression of the module can raise are listed.
\<close>

datatype error = IndexError | KeyError | ValueError | ZeroDivisionError | StopIteration

type_synonym 'a result = "error + 'a"

text \<open>Sequencing: the second computation runs only when the first one returned.\<close>

definition res_bind :: "'a result \<Rightarrow> ('a \<Rightarrow> 'b result) \<Rightarrow> 'b result" where
  "res_bind r f = (case r of Inl e \<Rightarrow> Inl e | Inr x \<Rightarrow> f x)"

text \<open>A list comprehension (or \<^verbatim>\<open>map\<close>) whose element expression may raise.\<close>

fun res_map :: "('a \<Rightarrow> 'b result) \<Rightarrow> 'a list \<Rightarrow> 'b list result" where
  "res_map f [] = Inr []"
| "res_map f (x # xs) =
     res_bind (f x) (\<lambda>y. res_bind (res_map f xs) (\<lambda>ys. Inr (y # ys)))"

text \<open>\<^verbatim>\<open>xs[i]\<close>: a negative index counts from the end, an index out of range raises.\<close>

definition py_getitem :: "'a list \<Rightarrow> int \<Rightarrow> 'a result" where
  "py_getitem xs i =
     (if 0 \<le> i \<and> i < int (length xs) then Inr (xs ! nat i)
      else if - int (length xs) \<le> i \<and> i < 0 then Inr (xs ! nat (int (length xs) + i))
      else Inl IndexError)"

text \<open>\<^verbatim>\<open>x % n\<close> on integers: the result has the sign of \<open>n\<close>, as \<open>mod\<close> on \<open>int\<close>.\<close>

definition py_mod :: "int \<Rightarrow> int \<Rightarrow> int result" where
  "py_mod x n = (if n = 0 then Inl ZeroDivisionError else Inr (x mod n))"

text \<open>\<^verbatim>\<open>range(n)\<close>.\<close>

definition py_range :: "int \<Rightarrow> int list" where
  "py_range n = map int [0..<nat n]"

text \<open>
  \<^verbatim>\<open>min(xs)\<close>: raises on the empty list; otherwise the running minimum, replaced only by
  a strictly smaller element.
\<close>

fun py_min_from :: "'d::linorder \<Rightarrow> 'd list \<Rightarrow> 'd" where
  "py_min_from m [] = m"
| "py_min_from m (x # xs) = py_min_from (if x < m then x else m) xs"

definition py_min :: "'d::linorder list \<Rightarrow> 'd result" where
  "py_min xs = (case xs of [] \<Rightarrow> Inl ValueError | x # rest \<Rightarrow> Inr (py_min_from x rest))"

text \<open>\<^verbatim>\<open>xs.index(x)\<close>: the first position holding \<open>x\<close>; raises when there is none.\<close>

fun list_index_from :: "nat \<Rightarrow> 'a list \<Rightarrow> 'a \<Rightarrow> nat result" where
  "list_index_from i [] x = Inl ValueError"
| "list_index_from i (y # ys) x = (if y = x then Inr i else list_index_from (Suc i) ys x)"

definition list_index :: "'a list \<Rightarrow> 'a \<Rightarrow> nat result" where
  "list_index xs x = list_index_from 0 xs x"

text \<open>\<^verbatim>\<open>string.uppercase\<close> (C locale), the default alphabet.\<close>

definition string_uppercase :: string where
  "string_uppercase = ''ABCDEFGHIJKLMNOPQRSTUVWXYZ''"

subsection \<open>Dictionaries\<close>

text \<open>
  A dictionary is the list of its items, keys distinct. The order of the list is the
  order in which \<^verbatim>\<open>items()\<close> yields them. Python 2 leaves that order to the hash table;
  the model yields items in the order the keys were first stored, and the results below
  that read \<^verbatim>\<open>items()\<close> are stated so that they hold for every order. Symbols are
  characters and a replacement table sends a character to a character.
\<close>

type_synonym ('k, 'v) dict = "('k \<times> 'v) list"

definition dict_wf :: "('k, 'v) dict \<Rightarrow> bool" where
  "dict_wf d = distinct (map fst d)"

definition dict_keys :: "('k, 'v) dict \<Rightarrow> 'k list" where
  "dict_keys d = map fst d"

definition dict_values :: "('k, 'v) dict \<Rightarrow> 'v list" where
  "dict_values d = map snd d"

definition dict_items :: "('k, 'v) dict \<Rightarrow> ('k \<times> 'v) list" where
  "dict_items d = d"

text \<open>\<^verbatim>\<open>d[k]\<close> raises on a missing key.\<close>

definition dict_getitem :: "('k, 'v) dict \<Rightarrow> 'k \<Rightarrow> 'v result" where
  "dict_getitem d k = (case map_of d k of None \<Rightarrow> Inl KeyError | Some v \<Rightarrow> Inr v)"

text \<open>\<^verbatim>\<open>d[k] = v\<close>: a key already present keeps its place and gets the new value.\<close>

fun dict_setitem :: "('k, 'v) dict \<Rightarrow> 'k \<Rightarrow> 'v \<Rightarrow> ('k, 'v) dict" where
  "dict_setitem [] k v = [(k, v)]"
| "dict_setitem ((k', v') # d) k v =
     (if k' = k then (k, v) # d else (k', v') # dict_setitem d k v)"

text \<open>
  A dictionary comprehension \<^verbatim>\<open>{key: value for x in xs}\<close>: the items are stored one
  after the other into the dictionary built so far; the expression giving an item may
  raise.
\<close>

fun dict_comprehension ::
  "('i \<Rightarrow> ('k \<times> 'v) result) \<Rightarrow> 'i list \<Rightarrow> ('k, 'v) dict \<Rightarrow> ('k, 'v) dict result" where
  "dict_comprehension f [] d = Inr d"
| "dict_comprehension f (x # xs) d =
     (case f x of Inl e \<Rightarrow> Inl e
      | Inr (k, v) \<Rightarrow> dict_comprehension f xs (dict_setitem d k v))"

section \<open>Generic monoalphabetic cipher\<close>

text \<open>
  \<^verbatim>\<open>encrypt_substitution(plaintext, dictionary)\<close>: the symbols produced by the lambda are
  joined in order; each is one character.
\<close>

definition encrypt_substitution :: "string \<Rightarrow> (char, char) dict \<Rightarrow> string result" where
  "encrypt_substitution plaintext dictionary =
     (let alphabet = dict_keys dictionary
      in res_map (\<lambda>c. if c \<in> set alphabet then dict_getitem dictionary c else Inr c) plaintext)"

text \<open>\<^verbatim>\<open>decrypt_substitution(ciphertext, dictionary)\<close>: encrypts with the inverted table.\<close>

definition decrypt_substitution :: "string \<Rightarrow> (char, char) dict \<Rightarrow> string result" where
  "decrypt_substitution ciphertext dictionary =
     res_bind (dict_comprehension (\<lambda>(k, v). Inr (v, k)) (dict_items dictionary) [])
       (\<lambda>inverse. encrypt_substitution ciphertext inverse)"

text \<open>\<^verbatim>\<open>crack_substitution\<close>: the body is \<^verbatim>\<open>pass\<close>, so the call returns \<^verbatim>\<open>None\<close>.\<close>

datatype py_none = PyNone

definition crack_substitution :: "string \<Rightarrow> 'f \<Rightarrow> py_none result" where
  "crack_substitution ciphertext frequencies = Inr PyNone"

text \<open>
  \<^verbatim>\<open>generic_crack\<close>. The modules \<^verbatim>\<open>freq\<close> and \<^verbatim>\<open>util\<close> are not part of the file:
  \<^verbatim>\<open>freq.text\<close> and \<^verbatim>\<open>util.squared_differences\<close> are the parameters \<open>freq_text\<close> and
  \<open>squared_differences\<close>, total functions into any frequency type \<open>'f\<close> and any linearly
  ordered type of distances \<open>'d\<close>. The body of the loop computes the distance of one
  candidate (lines 54 to 56) and the loop appends it.
\<close>

definition candidate_distance ::
  "(string \<Rightarrow> string \<Rightarrow> 'f) \<Rightarrow> ('f \<Rightarrow> 'f \<Rightarrow> 'd) \<Rightarrow> string \<Rightarrow> 'f \<Rightarrow> string \<Rightarrow>
   (char, char) dict \<Rightarrow> 'd result" where
  "candidate_distance freq_text squared_differences ciphertext frequencies alphabet candidate =
     res_bind (encrypt_substitution ciphertext candidate) (\<lambda>trial.
       let candidate_freq = freq_text trial alphabet
       in Inr (squared_differences candidate_freq frequencies))"

fun crack_distances ::
  "(string \<Rightarrow> string \<Rightarrow> 'f) \<Rightarrow> ('f \<Rightarrow> 'f \<Rightarrow> 'd) \<Rightarrow> string \<Rightarrow> 'f \<Rightarrow> string \<Rightarrow>
   (char, char) dict list \<Rightarrow> 'd list \<Rightarrow> 'd list result" where
  "crack_distances freq_text squared_differences ciphertext frequencies alphabet [] distances =
     Inr distances"
| "crack_distances freq_text squared_differences ciphertext frequencies alphabet
     (candidate # rest) distances =
     res_bind (candidate_distance freq_text squared_differences ciphertext frequencies alphabet
                 candidate) (\<lambda>distance.
       crack_distances freq_text squared_differences ciphertext frequencies alphabet rest
         (distances @ [distance]))"

definition generic_crack ::
  "(string \<Rightarrow> string \<Rightarrow> 'f) \<Rightarrow> ('f \<Rightarrow> 'f \<Rightarrow> 'd::linorder) \<Rightarrow> string \<Rightarrow>
   (char, char) dict list \<Rightarrow> 'f \<Rightarrow> string \<Rightarrow> ((char, char) dict \<times> string) result" where
  "generic_crack freq_text squared_differences ciphertext candidates frequencies alphabet =
     res_bind (crack_distances freq_text squared_differences ciphertext frequencies alphabet
                 candidates []) (\<lambda>distances.
     res_bind (py_min distances) (\<lambda>least.
     res_bind (list_index distances least) (\<lambda>guess.
     res_bind (py_getitem candidates (int guess)) (\<lambda>winner.
     res_bind (encrypt_substitution ciphertext winner) (\<lambda>text.
     Inr (winner, text))))))"

section \<open>Specific implementations\<close>

text \<open>\<^verbatim>\<open>affine_dict(key, alphabet)\<close>: position \<open>i\<close> is sent to position \<open>(a * i + b) % n\<close>.\<close>

fun affine_dict :: "int \<times> int \<Rightarrow> string \<Rightarrow> (char, char) dict result" where
  "affine_dict (a, b) alphabet =
     (let n = int (length alphabet)
      in dict_comprehension
           (\<lambda>i. res_bind (py_getitem alphabet i) (\<lambda>k.
                res_bind (py_mod (a * i + b) n) (\<lambda>j.
                res_bind (py_getitem alphabet j) (\<lambda>v. Inr (k, v)))))
           (py_range n) [])"

definition shift_dict :: "int \<Rightarrow> string \<Rightarrow> (char, char) dict result" where
  "shift_dict shift alphabet = affine_dict (1, shift) alphabet"

definition atbash_dict :: "string \<Rightarrow> (char, char) dict result" where
  "atbash_dict alphabet =
     (let n = int (length alphabet) in affine_dict (n - 1, n - 1) alphabet)"

section \<open>Crackers for the shift and the affine cipher\<close>

text \<open>
  \<^verbatim>\<open>crack_shift\<close>. Line 73 builds the candidates; line 75 takes the first item of the
  winning table whose value is \<^verbatim>\<open>alphabet[0]\<close>, the comparison being evaluated item by
  item, and \<^verbatim>\<open>next()\<close> raises \<^verbatim>\<open>StopIteration\<close> when the items are exhausted.
\<close>

definition crack_shift_candidates :: "string \<Rightarrow> (char, char) dict list result" where
  "crack_shift_candidates alphabet =
     res_map (\<lambda>i. shift_dict i alphabet) (py_range (int (length alphabet)))"

fun next_key_for :: "(char \<times> char) list \<Rightarrow> string \<Rightarrow> char result" where
  "next_key_for [] alphabet = Inl StopIteration"
| "next_key_for ((key, val) # items) alphabet =
     res_bind (py_getitem alphabet 0) (\<lambda>first.
       if val = first then Inr key else next_key_for items alphabet)"

definition crack_shift ::
  "(string \<Rightarrow> string \<Rightarrow> 'f) \<Rightarrow> ('f \<Rightarrow> 'f \<Rightarrow> 'd::linorder) \<Rightarrow> string \<Rightarrow> string \<Rightarrow> 'f \<Rightarrow>
   (nat \<times> string) result" where
  "crack_shift freq_text squared_differences ciphertext alphabet frequencies =
     res_bind (crack_shift_candidates alphabet) (\<lambda>candidates.
     res_bind (generic_crack freq_text squared_differences ciphertext candidates frequencies
                 alphabet) (\<lambda>(dictionary, plaintext).
     res_bind (next_key_for (dict_items dictionary) alphabet) (\<lambda>shift.
     res_bind (list_index alphabet shift) (\<lambda>k.
     Inr (k, plaintext)))))"

text \<open>
  \<^verbatim>\<open>crack_affine\<close>. \<^verbatim>\<open>fractions.gcd\<close> on the non-negative integers of the range is the
  greatest common divisor. Line 95 calls \<^verbatim>\<open>affine_dict(k)\<close> and line 96 calls
  \<^verbatim>\<open>generic_crack(ciphertext, candidates, frequencies)\<close>: both leave the alphabet to its
  default \<^verbatim>\<open>string.uppercase\<close>. The value returned is the value of \<^verbatim>\<open>generic_crack\<close>.
\<close>

definition crack_affine_keys :: "string \<Rightarrow> (int \<times> int) list" where
  "crack_affine_keys alphabet =
     (let n = int (length alphabet);
          invertible = filter (\<lambda>i. gcd i n = 1) (py_range n)
      in concat (map (\<lambda>a. map (\<lambda>b. (a, b)) (py_range n)) invertible))"

definition crack_affine_candidates :: "string \<Rightarrow> (char, char) dict list result" where
  "crack_affine_candidates alphabet =
     res_map (\<lambda>k. affine_dict k string_uppercase) (crack_affine_keys alphabet)"

definition crack_affine ::
  "(string \<Rightarrow> string \<Rightarrow> 'f) \<Rightarrow> ('f \<Rightarrow> 'f \<Rightarrow> 'd::linorder) \<Rightarrow> string \<Rightarrow> string \<Rightarrow> 'f \<Rightarrow>
   ((char, char) dict \<times> string) result" where
  "crack_affine freq_text squared_differences ciphertext alphabet frequencies =
     res_bind (crack_affine_candidates alphabet) (\<lambda>candidates.
     generic_crack freq_text squared_differences ciphertext candidates frequencies
       string_uppercase)"

section \<open>Properties of the containers\<close>

declare affine_dict.simps [simp del]

lemma res_bind_simps [simp]:
  "res_bind (Inl e) f = Inl e" "res_bind (Inr x) f = f x"
  by (simp_all add: res_bind_def)

lemma res_map_total:
  "(\<And>x. x \<in> set xs \<Longrightarrow> f x = Inr (g x)) \<Longrightarrow> res_map f xs = Inr (map g xs)"
  by (induction xs) simp_all

lemma res_map_length: "res_map f xs = Inr ys \<Longrightarrow> length ys = length xs"
  by (induction xs arbitrary: ys) (auto simp: res_bind_def split: sum.splits)

lemma map_of_in_keys: "c \<in> set (map fst d) \<Longrightarrow> \<exists>v. map_of d c = Some v"
  by (induction d) auto

lemma encrypt_substitution_total:
  "encrypt_substitution t d = Inr (map (\<lambda>c. case map_of d c of None \<Rightarrow> c | Some v \<Rightarrow> v) t)"
  unfolding encrypt_substitution_def Let_def
proof (rule res_map_total)
  fix c assume "c \<in> set t"
  show "(if c \<in> set (dict_keys d) then dict_getitem d c else Inr c) =
        Inr (case map_of d c of None \<Rightarrow> c | Some v \<Rightarrow> v)"
  proof (cases "map_of d c")
    case None
    then have "c \<notin> set (dict_keys d)" by (simp add: dict_keys_def map_of_eq_None_iff)
    with None show ?thesis by simp
  next
    case (Some v)
    then have "c \<in> set (dict_keys d)"
      by (auto simp: dict_keys_def dest: map_of_SomeD intro: rev_image_eqI)
    with Some show ?thesis by (simp add: dict_getitem_def)
  qed
qed

lemma map_of_dict_setitem: "map_of (dict_setitem d k v) = (map_of d)(k \<mapsto> v)"
  by (induction d k v rule: dict_setitem.induct) (auto simp: fun_eq_iff)

lemma keys_dict_setitem: "fst ` set (dict_setitem d k v) = insert k (fst ` set d)"
  by (induction d k v rule: dict_setitem.induct) auto

lemma dict_setitem_fresh: "k \<notin> fst ` set d \<Longrightarrow> dict_setitem d k v = d @ [(k, v)]"
  by (induction d k v rule: dict_setitem.induct) auto

lemma distinct_dict_setitem: "distinct (map fst d) \<Longrightarrow> distinct (map fst (dict_setitem d k v))"
  by (induction d k v rule: dict_setitem.induct) (auto simp: keys_dict_setitem)

lemma dict_comprehension_total:
  "(\<And>x. x \<in> set xs \<Longrightarrow> f x = Inr (g x)) \<Longrightarrow>
   dict_comprehension f xs d = Inr (foldl (\<lambda>d (k, v). dict_setitem d k v) d (map g xs))"
proof (induction xs arbitrary: d)
  case Nil
  then show ?case by simp
next
  case (Cons x xs)
  then show ?case by (cases "g x") simp
qed

lemma foldl_setitem_map_of:
  "map_of (foldl (\<lambda>d (k, v). dict_setitem d k v) d ps) = map_of d ++ map_of (rev ps)"
proof (induction ps arbitrary: d)
  case Nil
  then show ?case by simp
next
  case (Cons p ps)
  obtain k v where p: "p = (k, v)" by (cases p)
  show ?case
    by (simp add: p Cons.IH map_of_dict_setitem map_add_def fun_eq_iff split: option.splits)
qed

lemma foldl_setitem_fresh:
  "distinct (map fst (d @ ps)) \<Longrightarrow> foldl (\<lambda>d (k, v). dict_setitem d k v) d ps = d @ ps"
proof (induction ps arbitrary: d)
  case Nil
  then show ?case by simp
next
  case (Cons p ps)
  obtain k v where p: "p = (k, v)" by (cases p)
  from Cons.prems have fresh: "k \<notin> fst ` set d" by (auto simp: p)
  from Cons.prems have "distinct (map fst ((d @ [(k, v)]) @ ps))" by (simp add: p)
  from Cons.IH [OF this] show ?case by (simp add: p dict_setitem_fresh [OF fresh])
qed

section \<open>The minimum and its first position\<close>

lemma py_min_from_le: "py_min_from m xs \<le> m \<and> (\<forall>x\<in>set xs. py_min_from m xs \<le> x)"
proof (induction xs arbitrary: m)
  case Nil
  then show ?case by simp
next
  case (Cons x xs)
  from Cons.IH [of "if x < m then x else m"] show ?case by (auto split: if_splits)
qed

lemma py_min_from_mem: "py_min_from m xs \<in> set (m # xs)"
proof (induction xs arbitrary: m)
  case Nil
  then show ?case by simp
next
  case (Cons x xs)
  from Cons.IH [of "if x < m then x else m"] show ?case by (auto split: if_splits)
qed

lemma list_index_from_first:
  "x \<in> set xs \<Longrightarrow>
   \<exists>g<length xs. list_index_from i xs x = Inr (i + g) \<and> xs ! g = x \<and> (\<forall>j<g. xs ! j \<noteq> x)"
proof (induction xs arbitrary: i)
  case Nil
  then show ?case by simp
next
  case (Cons y ys)
  show ?case
  proof (cases "y = x")
    case True
    then show ?thesis by (intro exI [of _ 0]) simp
  next
    case False
    with Cons.prems have "x \<in> set ys" by simp
    from Cons.IH [OF this, of "Suc i"] obtain g where g: "g < length ys"
      "list_index_from (Suc i) ys x = Inr (Suc i + g)" "ys ! g = x" "\<forall>j<g. ys ! j \<noteq> x"
      by blast
    show ?thesis
    proof (intro exI [of _ "Suc g"] conjI allI impI)
      fix j assume "j < Suc g"
      with g(4) False show "(y # ys) ! j \<noteq> x" by (cases j) simp_all
    qed (use g False in simp_all)
  qed
qed

lemma list_index_from_absent: "x \<notin> set xs \<Longrightarrow> list_index_from i xs x = Inl ValueError"
  by (induction xs arbitrary: i) auto

lemma stable_argmin:
  assumes "xs \<noteq> []"
  shows "\<exists>g<length xs. res_bind (py_min xs) (list_index xs) = Inr g \<and>
           (\<forall>j<length xs. xs ! g \<le> xs ! j) \<and> (\<forall>j<g. xs ! g < xs ! j)"
proof -
  from assms obtain y ys where xs: "xs = y # ys" by (cases xs) auto
  define m where "m = py_min_from y ys"
  have min: "py_min xs = Inr m" by (simp add: xs py_min_def m_def)
  have mem: "m \<in> set xs" using py_min_from_mem [of y ys] by (simp add: xs m_def)
  have le: "\<forall>x\<in>set xs. m \<le> x" using py_min_from_le [of y ys] by (simp add: xs m_def)
  from list_index_from_first [OF mem, of 0] obtain g where g: "g < length xs"
    "list_index xs m = Inr g" "xs ! g = m" "\<forall>j<g. xs ! j \<noteq> m"
    by (auto simp: list_index_def)
  show ?thesis
  proof (intro exI [of _ g] conjI allI impI)
    show "g < length xs" by fact
    show "res_bind (py_min xs) (list_index xs) = Inr g" by (simp add: min g(2))
  next
    fix j assume "j < length xs"
    then show "xs ! g \<le> xs ! j" using le g(3) by simp
  next
    fix j assume j: "j < g"
    with g(1) have "xs ! j \<in> set xs" by simp
    with le have "m \<le> xs ! j" by blast
    moreover from g(4) j have "xs ! j \<noteq> m" by blast
    ultimately show "xs ! g < xs ! j" unfolding g(3) by simp
  qed
qed

lemma candidate_distance_total:
  "candidate_distance ft sq ct fr al cand =
   Inr (sq (ft (map (\<lambda>c. case map_of cand c of None \<Rightarrow> c | Some v \<Rightarrow> v) ct) al) fr)"
  by (simp add: candidate_distance_def encrypt_substitution_total)

lemma crack_distances_total:
  "crack_distances ft sq ct fr al cands acc =
   Inr (acc @ map (\<lambda>cand. sq (ft (map (\<lambda>c. case map_of cand c of None \<Rightarrow> c | Some v \<Rightarrow> v) ct) al) fr) cands)"
  by (induction cands arbitrary: acc) (simp_all add: candidate_distance_total)

lemma py_getitem_nat: "i < length xs \<Longrightarrow> py_getitem xs (int i) = Inr (xs ! i)"
  by (simp add: py_getitem_def)

lemma generic_crack_argmin:
  fixes sq :: "'f \<Rightarrow> 'f \<Rightarrow> 'd::linorder"
  assumes "candidates \<noteq> []"
  shows "\<exists>g<length candidates. \<exists>text ds.
           generic_crack ft sq ct candidates fr al = Inr (candidates ! g, text) \<and>
           encrypt_substitution ct (candidates ! g) = Inr text \<and>
           res_map (candidate_distance ft sq ct fr al) candidates = Inr ds \<and>
           (\<forall>j<length candidates. ds ! g \<le> ds ! j) \<and>
           (\<forall>j<g. ds ! g < ds ! j)"
proof -
  define dist where "dist = (\<lambda>cand. sq (ft (map (\<lambda>c. case map_of cand c of None \<Rightarrow> c | Some v \<Rightarrow> v) ct) al) fr)"
  define ds where "ds = map dist candidates"
  have ds: "crack_distances ft sq ct fr al candidates [] = Inr ds"
    by (simp add: crack_distances_total ds_def dist_def)
  have rm: "res_map (candidate_distance ft sq ct fr al) candidates = Inr ds"
    unfolding ds_def by (rule res_map_total) (simp add: candidate_distance_total dist_def)
  from assms(1) have "ds \<noteq> []" by (simp add: ds_def)
  from stable_argmin [OF this] obtain g where g: "g < length ds"
    "res_bind (py_min ds) (list_index ds) = Inr g"
    "\<forall>j<length ds. ds ! g \<le> ds ! j" "\<forall>j<g. ds ! g < ds ! j" by blast
  from g(1) have gl: "g < length candidates" by (simp add: ds_def)
  from g(2) obtain m where m: "py_min ds = Inr m" "list_index ds m = Inr g"
    by (cases "py_min ds") simp_all
  have "generic_crack ft sq ct candidates fr al =
          Inr (candidates ! g, map (\<lambda>c. case map_of (candidates ! g) c of None \<Rightarrow> c | Some v \<Rightarrow> v) ct)"
    by (simp add: generic_crack_def ds m py_getitem_nat [OF gl] encrypt_substitution_total)
  moreover have "\<forall>j<length candidates. ds ! g \<le> ds ! j"
    using g(3) by (simp add: ds_def)
  ultimately show ?thesis using gl g(4) rm encrypt_substitution_total by blast
qed

lemma generic_crack_explicit:
  fixes sq :: "'f \<Rightarrow> 'f \<Rightarrow> 'd::linorder"
  assumes "candidates \<noteq> []"
  shows "\<exists>g<length candidates. \<exists>trials.
           length trials = length candidates \<and>
           (\<forall>j<length candidates. encrypt_substitution ct (candidates ! j) = Inr (trials ! j)) \<and>
           generic_crack ft sq ct candidates fr al = Inr (candidates ! g, trials ! g) \<and>
           (\<forall>j<length candidates. sq (ft (trials ! g) al) fr \<le> sq (ft (trials ! j) al) fr) \<and>
           (\<forall>j<g. sq (ft (trials ! g) al) fr < sq (ft (trials ! j) al) fr)"
proof -
  define trials where
    "trials = map (\<lambda>cand. map (\<lambda>c. case map_of cand c of None \<Rightarrow> c | Some v \<Rightarrow> v) ct) candidates"
  define ds where "ds = map (\<lambda>trial. sq (ft trial al) fr) trials"
  have len: "length trials = length candidates" by (simp add: trials_def)
  have enc: "\<forall>j<length candidates. encrypt_substitution ct (candidates ! j) = Inr (trials ! j)"
    by (simp add: trials_def encrypt_substitution_total)
  have dist: "ds ! j = sq (ft (trials ! j) al) fr" if "j < length candidates" for j
    using that by (simp add: ds_def len)
  have loop: "crack_distances ft sq ct fr al candidates [] = Inr ds"
    by (simp add: crack_distances_total ds_def trials_def o_def)
  from assms have "ds \<noteq> []" by (simp add: ds_def trials_def)
  from stable_argmin [OF this] obtain g where g: "g < length ds"
    "res_bind (py_min ds) (list_index ds) = Inr g"
    "\<forall>j<length ds. ds ! g \<le> ds ! j" "\<forall>j<g. ds ! g < ds ! j" by blast
  from g(1) have gl: "g < length candidates" by (simp add: ds_def len)
  from g(2) obtain m where m: "py_min ds = Inr m" "list_index ds m = Inr g"
    by (cases "py_min ds") simp_all
  from enc gl have win: "encrypt_substitution ct (candidates ! g) = Inr (trials ! g)" by blast
  have run: "generic_crack ft sq ct candidates fr al = Inr (candidates ! g, trials ! g)"
    by (simp add: generic_crack_def loop m py_getitem_nat [OF gl] win)
  have least: "\<forall>j<length candidates. sq (ft (trials ! g) al) fr \<le> sq (ft (trials ! j) al) fr"
  proof (intro allI impI)
    fix j assume j: "j < length candidates"
    then have "j < length ds" by (simp add: ds_def len)
    with g(3) have "ds ! g \<le> ds ! j" by blast
    then show "sq (ft (trials ! g) al) fr \<le> sq (ft (trials ! j) al) fr"
      by (simp only: dist [OF gl] dist [OF j])
  qed
  have first: "\<forall>j<g. sq (ft (trials ! g) al) fr < sq (ft (trials ! j) al) fr"
  proof (intro allI impI)
    fix j assume j: "j < g"
    with gl have jl: "j < length candidates" by simp
    from g(4) j have "ds ! g < ds ! j" by blast
    then show "sq (ft (trials ! g) al) fr < sq (ft (trials ! j) al) fr"
      by (simp only: dist [OF gl] dist [OF jl])
  qed
  from gl len enc run least first show ?thesis by blast
qed

section \<open>The affine tables\<close>

lemma affine_item:
  assumes "i \<in> set (py_range (int (length A)))"
  shows "res_bind (py_getitem A i) (\<lambda>k.
           res_bind (py_mod (a * i + b) (int (length A))) (\<lambda>j.
           res_bind (py_getitem A j) (\<lambda>v. Inr (k, v)))) =
         Inr (A ! nat i, A ! nat ((a * i + b) mod int (length A)))"
proof -
  from assms have i: "0 \<le> i" "i < int (length A)" by (auto simp: py_range_def)
  then have n: "0 < int (length A)" by linarith
  have j: "0 \<le> (a * i + b) mod int (length A)" "(a * i + b) mod int (length A) < int (length A)"
    using n by simp_all
  have 1: "py_getitem A i = Inr (A ! nat i)" using i by (simp add: py_getitem_def)
  have 2: "py_mod (a * i + b) (int (length A)) = Inr ((a * i + b) mod int (length A))"
    using n by (simp add: py_mod_def)
  have 3: "py_getitem A ((a * i + b) mod int (length A)) = Inr (A ! nat ((a * i + b) mod int (length A)))"
    using j by (simp add: py_getitem_def)
  show ?thesis by (simp add: 1 2 3)
qed

lemma affine_dict_total:
  "affine_dict (a, b) A =
   Inr (foldl (\<lambda>d (k, v). dict_setitem d k v) []
         (map (\<lambda>i. (A ! nat i, A ! nat ((a * i + b) mod int (length A)))) (py_range (int (length A)))))"
  unfolding affine_dict.simps Let_def
  by (rule dict_comprehension_total) (rule affine_item)

lemma affine_dict_distinct:
  assumes "distinct A"
  shows "affine_dict (a, b) A =
         Inr (map (\<lambda>i. (A ! i, A ! nat ((a * int i + b) mod int (length A)))) [0..<length A])"
proof -
  let ?ps = "map (\<lambda>i. (A ! i, A ! nat ((a * int i + b) mod int (length A)))) [0..<length A]"
  have eq: "map (\<lambda>i. (A ! nat i, A ! nat ((a * i + b) mod int (length A)))) (py_range (int (length A))) = ?ps"
    by (simp add: py_range_def o_def)
  have "map fst ?ps = map ((!) A) [0..<length A]" by (simp add: o_def)
  then have "map fst ?ps = A" by (simp add: map_nth)
  with assms have "distinct (map fst ([] @ ?ps))" by simp
  from foldl_setitem_fresh [OF this] show ?thesis
    by (simp add: affine_dict_total eq del: map_map)
qed

lemma affine_keys: "\<exists>d. affine_dict (a, b) A = Inr d \<and> set (dict_keys d) = set A"
proof -
  let ?ps = "map (\<lambda>i. (A ! nat i, A ! nat ((a * i + b) mod int (length A)))) (py_range (int (length A)))"
  let ?d = "foldl (\<lambda>d (k, v). dict_setitem d k v) [] ?ps"
  have "dom (map_of ?d) = fst ` set ?ps"
    by (simp add: foldl_setitem_map_of dom_map_of_conv_image_fst del: set_map map_map)
  also have "\<dots> = set (map ((!) A) [0..<length A])"
    by (simp add: py_range_def image_image del: map_nth)
  also have "\<dots> = set A" by (simp add: map_nth)
  finally have "set (dict_keys ?d) = set A" by (simp add: dict_keys_def dom_map_of_conv_image_fst)
  then show ?thesis using affine_dict_total by blast
qed

lemma map_of_indexed:
  assumes "distinct A" "i < length A"
  shows "map_of (map (\<lambda>i. (A ! i, f i)) [0..<length A]) (A ! i) = Some (f i)"
proof -
  let ?ps = "map (\<lambda>i. (A ! i, f i)) [0..<length A]"
  have "map fst ?ps = map ((!) A) [0..<length A]" by (simp add: o_def)
  then have "map fst ?ps = A" by (simp add: map_nth)
  with assms(1) have "distinct (map fst ?ps)" by simp
  moreover from assms(2) have "(A ! i, f i) \<in> set ?ps" by auto
  ultimately show ?thesis by (simp add: map_of_eq_Some_iff del: set_map)
qed

lemma map_of_indexed_None:
  "c \<notin> set A \<Longrightarrow> map_of (map (\<lambda>i. (A ! i, f i)) [0..<length A]) c = None"
  by (auto simp: map_of_eq_None_iff image_iff)

lemma atbash_index:
  assumes "i < n"
  shows "nat (((int n - 1) * int i + (int n - 1)) mod int n) = n - 1 - i"
proof -
  have d: "int (n - 1 - i) = int n - 1 - int i" using assms by linarith
  have "(int n - 1) * int i + (int n - 1) = int (n - 1 - i) + int n * int i"
    unfolding d by (simp add: algebra_simps)
  then have "((int n - 1) * int i + (int n - 1)) mod int n = int (n - 1 - i) mod int n"
    by (metis mod_mult_self2)
  also have "\<dots> = int (n - 1 - i)" using assms by (simp del: of_nat_diff)
  finally show ?thesis by (simp del: of_nat_diff)
qed

lemma atbash_dict_distinct:
  assumes "distinct A"
  shows "atbash_dict A = Inr (map (\<lambda>i. (A ! i, A ! (length A - 1 - i))) [0..<length A])"
  by (simp add: atbash_dict_def Let_def affine_dict_distinct [OF assms] atbash_index)

lemma encrypt_twice:
  assumes "\<And>c. c \<in> set t \<Longrightarrow>
             (case map_of e (case map_of d c of None \<Rightarrow> c | Some v \<Rightarrow> v) of
                None \<Rightarrow> (case map_of d c of None \<Rightarrow> c | Some v \<Rightarrow> v) | Some w \<Rightarrow> w) = c"
  shows "res_bind (encrypt_substitution t d) (\<lambda>u. encrypt_substitution u e) = Inr t"
proof -
  have "map (\<lambda>c. case map_of e c of None \<Rightarrow> c | Some w \<Rightarrow> w)
          (map (\<lambda>c. case map_of d c of None \<Rightarrow> c | Some v \<Rightarrow> v) t) = t"
    using assms by (simp add: map_idI)
  then show ?thesis by (simp add: encrypt_substitution_total)
qed

section \<open>The candidates of the shift cracker\<close>

lemma shift_dict_total: "\<exists>d. shift_dict i A = Inr d"
  using affine_keys [of 1 i A] by (auto simp: shift_dict_def)

lemma res_map_succeeds:
  "(\<And>x. x \<in> set xs \<Longrightarrow> \<exists>y. f x = Inr y) \<Longrightarrow>
   \<exists>ys. res_map f xs = Inr ys \<and> length ys = length xs"
proof (induction xs)
  case Nil
  then show ?case by simp
next
  case (Cons x xs)
  from Cons.prems obtain y where y: "f x = Inr y" by force
  from Cons obtain ys where ys: "res_map f xs = Inr ys" "length ys = length xs" by force
  show ?case by (simp add: y ys)
qed

lemma crack_shift_candidates_total:
  "\<exists>candidates. crack_shift_candidates A = Inr candidates \<and> length candidates = length A"
proof -
  have "\<exists>ys. res_map (\<lambda>i. shift_dict i A) (py_range (int (length A))) = Inr ys \<and>
          length ys = length (py_range (int (length A)))"
    by (rule res_map_succeeds) (rule shift_dict_total)
  then show ?thesis by (simp add: crack_shift_candidates_def py_range_def)
qed

lemma generic_crack_Nil: "generic_crack ft sq ct [] fr al = Inl ValueError"
  by (simp add: generic_crack_def py_min_def)

section \<open>The shift tables and the key sent to the first symbol\<close>

lemma py_getitem_first: "A \<noteq> [] \<Longrightarrow> py_getitem A 0 = Inr (A ! 0)"
  by (simp add: py_getitem_def)

lemma next_key_for_found:
  assumes "A \<noteq> []" "A ! 0 \<in> snd ` set items"
  shows "\<exists>k. next_key_for items A = Inr k \<and> (k, A ! 0) \<in> set items"
  using assms(2)
proof (induction items)
  case Nil
  then show ?case by simp
next
  case (Cons item items)
  obtain key val where item: "item = (key, val)" by (cases item)
  show ?case
  proof (cases "val = A ! 0")
    case True
    then show ?thesis by (simp add: item py_getitem_first [OF assms(1)])
  next
    case False
    with Cons.prems have "A ! 0 \<in> snd ` set items" by (auto simp: item)
    from Cons.IH [OF this] False show ?thesis
      by (auto simp: item py_getitem_first [OF assms(1)])
  qed
qed

lemma next_key_for_exhausted:
  assumes "A \<noteq> []" "A ! 0 \<notin> snd ` set items"
  shows "next_key_for items A = Inl StopIteration"
  using assms(2)
proof (induction items)
  case Nil
  then show ?case by simp
next
  case (Cons item items)
  obtain key val where item: "item = (key, val)" by (cases item)
  from Cons show ?case by (auto simp: item py_getitem_first [OF assms(1)])
qed

lemma next_key_for_fails_iff:
  assumes "A \<noteq> []"
  shows "isl (next_key_for items A) \<longleftrightarrow> A ! 0 \<notin> snd ` set items"
proof (cases "A ! 0 \<in> snd ` set items")
  case True
  from next_key_for_found [OF assms True] show ?thesis using True by auto
next
  case False
  from next_key_for_exhausted [OF assms False] show ?thesis using False by simp
qed

lemma shift_dict_distinct:
  assumes "distinct A"
  shows "shift_dict (int s) A =
         Inr (map (\<lambda>i. (A ! i, A ! ((i + s) mod length A))) [0..<length A])"
proof -
  have "nat ((1 * int i + int s) mod int (length A)) = (i + s) mod length A" for i
    by (simp add: nat_mod_distrib nat_add_distrib)
  then show ?thesis by (simp add: shift_dict_def affine_dict_distinct [OF assms])
qed

lemma shift_position:
  fixes s n i :: nat
  assumes "s < n" "i < n"
  shows "(i + s) mod n = 0 \<longleftrightarrow> i = (if s = 0 then 0 else n - s)"
proof (cases "i + s < n")
  case True
  then have eq: "(i + s) mod n = i + s" by simp
  from True assms show ?thesis unfolding eq by (cases "s = 0") simp_all
next
  case False
  with assms have eq: "(i + s) mod n = i + s - n" by (simp add: le_mod_geq)
  from False assms show ?thesis unfolding eq by (cases "s = 0") (simp, arith)
qed

lemma crack_shift_candidates_distinct:
  assumes "distinct A"
  shows "crack_shift_candidates A =
         Inr (map (\<lambda>s. map (\<lambda>i. (A ! i, A ! ((i + s) mod length A))) [0..<length A]) [0..<length A])"
proof -
  have "res_map (\<lambda>i. shift_dict i A) (py_range (int (length A))) =
        Inr (map (\<lambda>j. map (\<lambda>i. (A ! i, A ! ((i + nat j) mod length A))) [0..<length A])
               (py_range (int (length A))))"
  proof (rule res_map_total)
    fix j assume "j \<in> set (py_range (int (length A)))"
    then obtain s where "j = int s" by (auto simp: py_range_def)
    then show "shift_dict j A = Inr (map (\<lambda>i. (A ! i, A ! ((i + nat j) mod length A))) [0..<length A])"
      by (simp add: shift_dict_distinct [OF assms])
  qed
  then show ?thesis by (simp add: crack_shift_candidates_def py_range_def o_def)
qed

lemma list_index_found:
  assumes "x \<in> set xs"
  shows "\<exists>i<length xs. list_index xs x = Inr i \<and> xs ! i = x"
  using list_index_from_first [OF assms, of 0] by (auto simp: list_index_def)

lemma shift_unique_key:
  assumes "distinct A" "A \<noteq> []" "s < length A"
  shows "\<exists>!k. (k, A ! 0) \<in> set (map (\<lambda>i. (A ! i, A ! ((i + s) mod length A))) [0..<length A])"
proof -
  let ?n = "length A"
  let ?D = "map (\<lambda>i. (A ! i, A ! ((i + s) mod ?n))) [0..<?n]"
  define p where "p = (if s = 0 then 0 else ?n - s)"
  from assms have n: "0 < ?n" by simp
  from assms(3) n have p: "p < ?n" by (simp add: p_def)
  from shift_position [OF assms(3) p] have p0: "(p + s) mod ?n = 0" by (simp add: p_def)
  show ?thesis
  proof (rule ex1I [of _ "A ! p"])
    from p have "(A ! p, A ! ((p + s) mod ?n)) \<in> (\<lambda>i. (A ! i, A ! ((i + s) mod ?n))) ` set [0..<?n]"
      by (intro imageI) simp
    then show "(A ! p, A ! 0) \<in> set ?D" by (simp only: p0 set_map)
  next
    fix k assume "(k, A ! 0) \<in> set ?D"
    then have "(k, A ! 0) \<in> (\<lambda>i. (A ! i, A ! ((i + s) mod ?n))) ` set [0..<?n]"
      by (simp only: set_map)
    then obtain i where i: "i < ?n" "k = A ! i" "A ! 0 = A ! ((i + s) mod ?n)"
      by (elim imageE) simp
    from n have "(i + s) mod ?n < ?n" by simp
    with assms(1) n i(3) have "(i + s) mod ?n = 0"
      by (simp only: nth_eq_iff_index_eq)
    with shift_position [OF assms(3) i(1)] have "i = p" by (simp add: p_def)
    with i(2) show "k = A ! p" by simp
  qed
qed

lemma next_key_for_stop_iff:
  assumes "A \<noteq> []"
  shows "next_key_for items A = Inl StopIteration \<longleftrightarrow> A ! 0 \<notin> snd ` set items"
proof (cases "A ! 0 \<in> snd ` set items")
  case True
  from next_key_for_found [OF assms True] show ?thesis using True by auto
next
  case False
  from next_key_for_exhausted [OF assms False] show ?thesis using False by simp
qed

lemma next_key_for_unique:
  assumes "A \<noteq> []" "(k, A ! 0) \<in> set items"
    and "\<And>k'. (k', A ! 0) \<in> set items \<Longrightarrow> k' = k"
  shows "next_key_for items A = Inr k"
proof -
  from assms(2) have "A ! 0 \<in> snd ` set items" by (rule rev_image_eqI) simp
  from next_key_for_found [OF assms(1) this] obtain k' where
    "next_key_for items A = Inr k'" "(k', A ! 0) \<in> set items" by blast
  with assms(3) show ?thesis by simp
qed

section \<open>The inverted table\<close>

lemma decrypt_substitution_total:
  "decrypt_substitution ct m =
   Inr (map (\<lambda>c. case map_of (rev (map (\<lambda>(k, v). (v, k)) m)) c of None \<Rightarrow> c | Some k \<Rightarrow> k) ct)"
proof -
  have "dict_comprehension (\<lambda>(k, v). Inr (v, k)) m [] =
        Inr (foldl (\<lambda>d (k, v). dict_setitem d k v) [] (map (\<lambda>(k, v). (v, k)) m))"
    by (rule dict_comprehension_total) (simp split: prod.split)
  moreover have "map_of (foldl (\<lambda>d (k, v). dict_setitem d k v) [] (map (\<lambda>(k, v). (v, k)) m)) =
                 map_of (rev (map (\<lambda>(k, v). (v, k)) m))"
    by (simp only: foldl_setitem_map_of map_of.simps empty_map_add)
  ultimately show ?thesis
    by (simp add: decrypt_substitution_def dict_items_def encrypt_substitution_total)
qed

lemma inverse_lookup_Some:
  "map_of (rev (map (\<lambda>(k, v). (v, k)) m)) v = Some k \<Longrightarrow> (k, v) \<in> set m"
  by (drule map_of_SomeD) auto

lemma inverse_lookup_None:
  "map_of (rev (map (\<lambda>(k, v). (v, k)) m)) v = None \<longleftrightarrow> v \<notin> snd ` set m"
  by (force simp: map_of_eq_None_iff image_iff)

lemma round_trip_symbolwise:
  assumes inj: "\<And>c k v. c \<in> set t \<Longrightarrow> (c, v) \<in> set m \<Longrightarrow> (k, v) \<in> set m \<Longrightarrow> k = c"
    and free: "\<And>c. c \<in> set t \<Longrightarrow> c \<notin> fst ` set m \<Longrightarrow> c \<notin> snd ` set m"
  shows "res_bind (encrypt_substitution t m) (\<lambda>ct. decrypt_substitution ct m) = Inr t"
proof -
  let ?inv = "rev (map (\<lambda>(k, v). (v, k)) m)"
  have "(case map_of ?inv (case map_of m c of None \<Rightarrow> c | Some v \<Rightarrow> v) of
           None \<Rightarrow> (case map_of m c of None \<Rightarrow> c | Some v \<Rightarrow> v) | Some k \<Rightarrow> k) = c"
    if c: "c \<in> set t" for c
  proof (cases "map_of m c")
    case None
    then have "c \<notin> fst ` set m" by (simp add: map_of_eq_None_iff)
    from free [OF c this] have "map_of ?inv c = None" by (simp add: inverse_lookup_None)
    with None show ?thesis by simp
  next
    case (Some v)
    then have cv: "(c, v) \<in> set m" by (rule map_of_SomeD)
    then have "v \<in> snd ` set m" by (rule rev_image_eqI) simp
    then have "map_of ?inv v \<noteq> None" by (simp only: inverse_lookup_None not_not)
    then obtain k where k: "map_of ?inv v = Some k" by blast
    from inverse_lookup_Some [OF k] have "(k, v) \<in> set m" .
    from inj [OF c cv this] have "k = c" .
    with Some k show ?thesis by simp
  qed
  then have "map (\<lambda>c. case map_of ?inv c of None \<Rightarrow> c | Some k \<Rightarrow> k)
               (map (\<lambda>c. case map_of m c of None \<Rightarrow> c | Some v \<Rightarrow> v) t) = t"
    by (simp add: map_idI)
  then show ?thesis by (simp add: encrypt_substitution_total decrypt_substitution_total)
qed

section \<open>The candidates of the affine cracker on a two-letter alphabet\<close>

lemma crack_affine_keys_AB: "crack_affine_keys ''AB'' = [(1, 0), (1, 1)]"
  by code_simp

lemma crack_affine_candidates_AB:
  "crack_affine_candidates ''AB'' =
     Inr [[(CHR ''A'', CHR ''A''), (CHR ''B'', CHR ''B''), (CHR ''C'', CHR ''C''),
           (CHR ''D'', CHR ''D''), (CHR ''E'', CHR ''E''), (CHR ''F'', CHR ''F''),
           (CHR ''G'', CHR ''G''), (CHR ''H'', CHR ''H''), (CHR ''I'', CHR ''I''),
           (CHR ''J'', CHR ''J''), (CHR ''K'', CHR ''K''), (CHR ''L'', CHR ''L''),
           (CHR ''M'', CHR ''M''), (CHR ''N'', CHR ''N''), (CHR ''O'', CHR ''O''),
           (CHR ''P'', CHR ''P''), (CHR ''Q'', CHR ''Q''), (CHR ''R'', CHR ''R''),
           (CHR ''S'', CHR ''S''), (CHR ''T'', CHR ''T''), (CHR ''U'', CHR ''U''),
           (CHR ''V'', CHR ''V''), (CHR ''W'', CHR ''W''), (CHR ''X'', CHR ''X''),
           (CHR ''Y'', CHR ''Y''), (CHR ''Z'', CHR ''Z'')],
          [(CHR ''A'', CHR ''B''), (CHR ''B'', CHR ''C''), (CHR ''C'', CHR ''D''),
           (CHR ''D'', CHR ''E''), (CHR ''E'', CHR ''F''), (CHR ''F'', CHR ''G''),
           (CHR ''G'', CHR ''H''), (CHR ''H'', CHR ''I''), (CHR ''I'', CHR ''J''),
           (CHR ''J'', CHR ''K''), (CHR ''K'', CHR ''L''), (CHR ''L'', CHR ''M''),
           (CHR ''M'', CHR ''N''), (CHR ''N'', CHR ''O''), (CHR ''O'', CHR ''P''),
           (CHR ''P'', CHR ''Q''), (CHR ''Q'', CHR ''R''), (CHR ''R'', CHR ''S''),
           (CHR ''S'', CHR ''T''), (CHR ''T'', CHR ''U''), (CHR ''U'', CHR ''V''),
           (CHR ''V'', CHR ''W''), (CHR ''W'', CHR ''X''), (CHR ''X'', CHR ''Y''),
           (CHR ''Y'', CHR ''Z''), (CHR ''Z'', CHR ''A'')]]"
  by (simp add: crack_affine_candidates_def crack_affine_keys_AB affine_dict.simps
      string_uppercase_def py_range_def upt_rec py_getitem_def py_mod_def)

section \<open>The substitution engine\<close>

text \<open>
  Claim C8. For every text and every table, \<^verbatim>\<open>encrypt_substitution\<close> returns (it never
  raises); the text returned has the length of the input; at every position, a symbol
  that is a key of the table is replaced by the table's entry for it, and any other
  symbol (punctuation, white space) stands unchanged at its position.
\<close>

theorem encrypt_substitution_symbolwise:
  "\<exists>out. encrypt_substitution text mapping = Inr out \<and> length out = length text \<and>
     (\<forall>i<length text.
        if text ! i \<in> set (dict_keys mapping)
        then dict_getitem mapping (text ! i) = Inr (out ! i)
        else out ! i = text ! i)"
proof (intro exI conjI allI impI)
  show "encrypt_substitution text mapping =
        Inr (map (\<lambda>c. case map_of mapping c of None \<Rightarrow> c | Some v \<Rightarrow> v) text)"
    by (rule encrypt_substitution_total)
  show "length (map (\<lambda>c. case map_of mapping c of None \<Rightarrow> c | Some v \<Rightarrow> v) text) = length text"
    by simp
next
  fix i assume i: "i < length text"
  show "if text ! i \<in> set (dict_keys mapping)
        then dict_getitem mapping (text ! i) =
             Inr (map (\<lambda>c. case map_of mapping c of None \<Rightarrow> c | Some v \<Rightarrow> v) text ! i)
        else map (\<lambda>c. case map_of mapping c of None \<Rightarrow> c | Some v \<Rightarrow> v) text ! i = text ! i"
  proof (cases "map_of mapping (text ! i)")
    case None
    then have "text ! i \<notin> set (dict_keys mapping)"
      by (simp add: dict_keys_def map_of_eq_None_iff)
    with None i show ?thesis by simp
  next
    case (Some v)
    then have "text ! i \<in> set (dict_keys mapping)"
      by (auto simp: dict_keys_def dest: map_of_SomeD intro: rev_image_eqI)
    with Some i show ?thesis by (simp add: dict_getitem_def)
  qed
qed

text \<open>
  The theorem at \<^verbatim>\<open>"HELLO, WORLD!"\<close> and the table of the shift by three over the upper
  case letters: comma, blank and exclamation mark pass through.
\<close>

theorem encrypt_substitution_symbolwise_witness:
  "shift_dict 3 string_uppercase =
     Inr [(CHR ''A'', CHR ''D''), (CHR ''B'', CHR ''E''), (CHR ''C'', CHR ''F''),
          (CHR ''D'', CHR ''G''), (CHR ''E'', CHR ''H''), (CHR ''F'', CHR ''I''),
          (CHR ''G'', CHR ''J''), (CHR ''H'', CHR ''K''), (CHR ''I'', CHR ''L''),
          (CHR ''J'', CHR ''M''), (CHR ''K'', CHR ''N''), (CHR ''L'', CHR ''O''),
          (CHR ''M'', CHR ''P''), (CHR ''N'', CHR ''Q''), (CHR ''O'', CHR ''R''),
          (CHR ''P'', CHR ''S''), (CHR ''Q'', CHR ''T''), (CHR ''R'', CHR ''U''),
          (CHR ''S'', CHR ''V''), (CHR ''T'', CHR ''W''), (CHR ''U'', CHR ''X''),
          (CHR ''V'', CHR ''Y''), (CHR ''W'', CHR ''Z''), (CHR ''X'', CHR ''A''),
          (CHR ''Y'', CHR ''B''), (CHR ''Z'', CHR ''C'')] \<and>
   encrypt_substitution ''HELLO, WORLD!''
     [(CHR ''A'', CHR ''D''), (CHR ''B'', CHR ''E''), (CHR ''C'', CHR ''F''),
      (CHR ''D'', CHR ''G''), (CHR ''E'', CHR ''H''), (CHR ''F'', CHR ''I''),
      (CHR ''G'', CHR ''J''), (CHR ''H'', CHR ''K''), (CHR ''I'', CHR ''L''),
      (CHR ''J'', CHR ''M''), (CHR ''K'', CHR ''N''), (CHR ''L'', CHR ''O''),
      (CHR ''M'', CHR ''P''), (CHR ''N'', CHR ''Q''), (CHR ''O'', CHR ''R''),
      (CHR ''P'', CHR ''S''), (CHR ''Q'', CHR ''T''), (CHR ''R'', CHR ''U''),
      (CHR ''S'', CHR ''V''), (CHR ''T'', CHR ''W''), (CHR ''U'', CHR ''X''),
      (CHR ''V'', CHR ''Y''), (CHR ''W'', CHR ''Z''), (CHR ''X'', CHR ''A''),
      (CHR ''Y'', CHR ''B''), (CHR ''Z'', CHR ''C'')] =
     Inr ''KHOOR, ZRUOG!''"
  using encrypt_substitution_symbolwise [of "''HELLO, WORLD!''"
     "[(CHR ''A'', CHR ''D''), (CHR ''B'', CHR ''E''), (CHR ''C'', CHR ''F''),
       (CHR ''D'', CHR ''G''), (CHR ''E'', CHR ''H''), (CHR ''F'', CHR ''I''),
       (CHR ''G'', CHR ''J''), (CHR ''H'', CHR ''K''), (CHR ''I'', CHR ''L''),
       (CHR ''J'', CHR ''M''), (CHR ''K'', CHR ''N''), (CHR ''L'', CHR ''O''),
       (CHR ''M'', CHR ''P''), (CHR ''N'', CHR ''Q''), (CHR ''O'', CHR ''R''),
       (CHR ''P'', CHR ''S''), (CHR ''Q'', CHR ''T''), (CHR ''R'', CHR ''U''),
       (CHR ''S'', CHR ''V''), (CHR ''T'', CHR ''W''), (CHR ''U'', CHR ''X''),
       (CHR ''V'', CHR ''Y''), (CHR ''W'', CHR ''Z''), (CHR ''X'', CHR ''A''),
       (CHR ''Y'', CHR ''B''), (CHR ''Z'', CHR ''C'')]"]
  by (simp add: shift_dict_def affine_dict.simps string_uppercase_def py_range_def
      py_getitem_def py_mod_def upt_rec encrypt_substitution_def dict_keys_def dict_getitem_def)

section \<open>The generic cracker\<close>

text \<open>
  Claim C1. For every ciphertext, every non-empty list of candidates, every table of
  target frequencies and every alphabet, \<^verbatim>\<open>generic_crack\<close> returns the pair of the
  winning candidate and the ciphertext encrypted with it. With \<open>trials ! j\<close> the
  ciphertext encrypted with the candidate at position \<open>j\<close>, the distance of that candidate
  is \<open>squared_differences (freq_text (trials ! j) alphabet) frequencies\<close>. The winner
  stands at a position \<open>guess\<close> whose distance is the least of all candidates', and every
  candidate before it has a strictly greater distance: among candidates of equal
  distance the first one of the list wins.
\<close>

theorem generic_crack_stable_argmin:
  fixes squared_differences :: "'f \<Rightarrow> 'f \<Rightarrow> 'd::linorder"
  assumes "candidates \<noteq> []"
  shows "\<exists>guess<length candidates. \<exists>trials.
           length trials = length candidates \<and>
           (\<forall>j<length candidates.
              encrypt_substitution ciphertext (candidates ! j) = Inr (trials ! j)) \<and>
           generic_crack freq_text squared_differences ciphertext candidates frequencies alphabet =
             Inr (candidates ! guess, trials ! guess) \<and>
           (\<forall>j<length candidates.
              squared_differences (freq_text (trials ! guess) alphabet) frequencies \<le>
              squared_differences (freq_text (trials ! j) alphabet) frequencies) \<and>
           (\<forall>j<guess.
              squared_differences (freq_text (trials ! guess) alphabet) frequencies <
              squared_differences (freq_text (trials ! j) alphabet) frequencies)"
  using assms by (rule generic_crack_explicit)

text \<open>
  The theorem at three candidates over \<^verbatim>\<open>"EFG"\<close>, the frequencies being the counts of
  the symbols of the alphabet in the trial text, the distance the sum of the squared
  differences and the target \<open>[2, 1, 0]\<close>: the distances are 6, 6 and 0 and the third
  candidate wins. On the empty ciphertext all distances are equal and the first
  candidate wins.
\<close>

theorem generic_crack_stable_argmin_witness:
  "[[(CHR ''E'', CHR ''E''), (CHR ''F'', CHR ''F''), (CHR ''G'', CHR ''G'')],
    [(CHR ''E'', CHR ''F''), (CHR ''F'', CHR ''G''), (CHR ''G'', CHR ''E'')],
    [(CHR ''E'', CHR ''G''), (CHR ''F'', CHR ''E''), (CHR ''G'', CHR ''F'')]] \<noteq> [] \<and>
   generic_crack (\<lambda>trial alphabet. map (\<lambda>a. int (count_list trial a)) alphabet)
     (\<lambda>f g. sum_list (map2 (\<lambda>x y. (x - y) * (x - y)) f g)) ''FFG''
     [[(CHR ''E'', CHR ''E''), (CHR ''F'', CHR ''F''), (CHR ''G'', CHR ''G'')],
      [(CHR ''E'', CHR ''F''), (CHR ''F'', CHR ''G''), (CHR ''G'', CHR ''E'')],
      [(CHR ''E'', CHR ''G''), (CHR ''F'', CHR ''E''), (CHR ''G'', CHR ''F'')]]
     [2, 1, 0] ''EFG'' =
     Inr ([(CHR ''E'', CHR ''G''), (CHR ''F'', CHR ''E''), (CHR ''G'', CHR ''F'')], ''EEF'') \<and>
   generic_crack (\<lambda>trial alphabet. map (\<lambda>a. int (count_list trial a)) alphabet)
     (\<lambda>f g. sum_list (map2 (\<lambda>x y. (x - y) * (x - y)) f g)) ''''
     [[(CHR ''E'', CHR ''F''), (CHR ''F'', CHR ''G''), (CHR ''G'', CHR ''E'')],
      [(CHR ''E'', CHR ''E''), (CHR ''F'', CHR ''F''), (CHR ''G'', CHR ''G'')]]
     [2, 1, 0] ''EFG'' =
     Inr ([(CHR ''E'', CHR ''F''), (CHR ''F'', CHR ''G''), (CHR ''G'', CHR ''E'')], '''')"
  using generic_crack_stable_argmin
    [of "[[(CHR ''E'', CHR ''E''), (CHR ''F'', CHR ''F''), (CHR ''G'', CHR ''G'')],
          [(CHR ''E'', CHR ''F''), (CHR ''F'', CHR ''G''), (CHR ''G'', CHR ''E'')],
          [(CHR ''E'', CHR ''G''), (CHR ''F'', CHR ''E''), (CHR ''G'', CHR ''F'')]]"
        "''FFG''" "\<lambda>trial alphabet. map (\<lambda>a. int (count_list trial a)) alphabet"
        "\<lambda>f g. sum_list (map2 (\<lambda>x y. (x - y) * (x - y)) f g)" "[2, 1, 0]" "''EFG''"]
  by (simp add: generic_crack_def candidate_distance_def encrypt_substitution_def
      dict_keys_def dict_getitem_def py_min_def list_index_def py_getitem_def)

text \<open>
  Claim C10. On the empty list of candidates \<^verbatim>\<open>generic_crack\<close> raises: \<^verbatim>\<open>min\<close> of the
  empty list of distances is a \<^verbatim>\<open>ValueError\<close>, so there is no pair of candidate and
  text. \<^verbatim>\<open>crack_shift\<close> builds one candidate for each position of the alphabet, so its
  list of candidates is empty exactly when the alphabet is, and \<^verbatim>\<open>crack_shift\<close> on the
  empty alphabet raises that error.
\<close>

theorem generic_crack_empty_candidates:
  fixes squared_differences :: "'f \<Rightarrow> 'f \<Rightarrow> 'd::linorder"
  shows "generic_crack freq_text squared_differences ciphertext [] frequencies alphabet =
           Inl ValueError \<and>
         (\<exists>candidates. crack_shift_candidates alphabet = Inr candidates \<and>
            (candidates = [] \<longleftrightarrow> alphabet = [])) \<and>
         crack_shift freq_text squared_differences ciphertext [] frequencies = Inl ValueError"
proof (intro conjI)
  show "generic_crack freq_text squared_differences ciphertext [] frequencies alphabet =
          Inl ValueError"
    by (rule generic_crack_Nil)
  from crack_shift_candidates_total [of alphabet]
  show "\<exists>candidates. crack_shift_candidates alphabet = Inr candidates \<and>
          (candidates = [] \<longleftrightarrow> alphabet = [])"
    by auto
  show "crack_shift freq_text squared_differences ciphertext [] frequencies = Inl ValueError"
    by (simp add: crack_shift_def crack_shift_candidates_def py_range_def generic_crack_Nil)
qed

text \<open>
  Claim C5, as the code has it. For every input \<^verbatim>\<open>crack_substitution\<close> returns
  \<^verbatim>\<open>None\<close>: the body is \<^verbatim>\<open>pass\<close> and nothing is raised.
\<close>

theorem crack_substitution_returns_none:
  "crack_substitution ciphertext frequencies = Inr PyNone"
  by (simp add: crack_substitution_def)

text \<open>
  Claim C5 as stated asks for an error. On the ciphertext \<^verbatim>\<open>"KHOOR"\<close> the call returns
  \<^verbatim>\<open>None\<close> and is no error.
\<close>

theorem crack_substitution_no_error:
  "crack_substitution ''KHOOR'' ([]::int list) = Inr PyNone \<and>
   \<not> isl (crack_substitution ''KHOOR'' ([]::int list))"
  by (simp add: crack_substitution_def)

section \<open>The affine key\<close>

text \<open>
  Claim C4, as the code has it. For every key \<open>(a, b)\<close> and every alphabet, building the
  affine table returns a table whose keys are the symbols of the alphabet: nothing is
  raised, whatever the greatest common divisor of \<open>a\<close> and the length of the alphabet.
\<close>

theorem affine_dict_never_fails:
  "\<exists>d. affine_dict (a, b) alphabet = Inr d \<and> set (dict_keys d) = set alphabet"
  by (rule affine_keys)

text \<open>
  Claim C4 as stated asks for a failure when \<open>a\<close> is not invertible. The key \<open>(2, 0)\<close>
  over \<^verbatim>\<open>"ABCD"\<close> has \<open>gcd 2 4 = 2\<close>, and the table is built all the same; it sends
  both \<^verbatim>\<open>A\<close> and \<^verbatim>\<open>C\<close> to \<^verbatim>\<open>A\<close>.
\<close>

theorem affine_dict_unchecked_key:
  "gcd (2::int) (int (length ''ABCD'')) \<noteq> 1 \<and>
   affine_dict (2, 0) ''ABCD'' =
     Inr [(CHR ''A'', CHR ''A''), (CHR ''B'', CHR ''C''), (CHR ''C'', CHR ''A''),
          (CHR ''D'', CHR ''C'')] \<and>
   \<not> isl (affine_dict (2, 0) ''ABCD'')"
  by (simp add: affine_dict.simps py_range_def py_getitem_def py_mod_def upt_rec)

section \<open>The Atbash table\<close>

text \<open>
  Claim C9. Over an alphabet of \<open>n\<close> distinct symbols (an alphabet has no duplicates),
  \<^verbatim>\<open>atbash_dict\<close> is the affine table of the key \<open>(n - 1, n - 1)\<close>; it is built without an
  error, sends the symbol at position \<open>i\<close> to the symbol at position \<open>n - 1 - i\<close> (the
  alphabet reversed), and encrypting any text twice with it gives the text back.
\<close>

theorem atbash_self_inverse:
  assumes "distinct alphabet"
  shows "atbash_dict alphabet =
           affine_dict (int (length alphabet) - 1, int (length alphabet) - 1) alphabet \<and>
         (\<exists>d. atbash_dict alphabet = Inr d \<and>
            (\<forall>i<length alphabet.
               dict_getitem d (alphabet ! i) = Inr (alphabet ! (length alphabet - 1 - i))) \<and>
            res_bind (encrypt_substitution text d) (\<lambda>once. encrypt_substitution once d) =
              Inr text)"
proof -
  let ?n = "length alphabet"
  let ?d = "map (\<lambda>i. (alphabet ! i, alphabet ! (?n - 1 - i))) [0..<?n]"
  have look: "map_of ?d (alphabet ! i) = Some (alphabet ! (?n - 1 - i))" if "i < ?n" for i
    using assms that by (rule map_of_indexed)
  have twice: "(case map_of ?d (case map_of ?d c of None \<Rightarrow> c | Some v \<Rightarrow> v) of
                 None \<Rightarrow> (case map_of ?d c of None \<Rightarrow> c | Some v \<Rightarrow> v) | Some w \<Rightarrow> w) = c" for c
  proof (cases "c \<in> set alphabet")
    case True
    then obtain i where i: "i < ?n" "c = alphabet ! i" by (auto simp: in_set_conv_nth)
    define j where "j = ?n - 1 - i"
    from i(1) have j: "j < ?n" "?n - 1 - j = i" by (simp_all add: j_def)
    from look [OF i(1)] have 1: "map_of ?d c = Some (alphabet ! j)" by (simp add: i(2) j_def)
    from look [OF j(1)] have 2: "map_of ?d (alphabet ! j) = Some c" by (simp only: j(2) i(2))
    show ?thesis by (simp only: 1 2 option.case)
  next
    case False
    then have "map_of ?d c = None" by (rule map_of_indexed_None)
    then show ?thesis by simp
  qed
  have "atbash_dict alphabet =
          affine_dict (int ?n - 1, int ?n - 1) alphabet"
    by (simp add: atbash_dict_def Let_def)
  moreover have "atbash_dict alphabet = Inr ?d" using assms by (rule atbash_dict_distinct)
  moreover have "\<forall>i<?n. dict_getitem ?d (alphabet ! i) = Inr (alphabet ! (?n - 1 - i))"
    using look by (simp add: dict_getitem_def)
  moreover have "res_bind (encrypt_substitution text ?d) (\<lambda>once. encrypt_substitution once ?d) =
          Inr text"
    by (rule encrypt_twice) (rule twice)
  ultimately show ?thesis by blast
qed

text \<open>The theorem at the alphabet \<^verbatim>\<open>"ABCD"\<close> and the text \<^verbatim>\<open>"BAD CAB!"\<close>.\<close>

theorem atbash_self_inverse_witness:
  "distinct ''ABCD'' \<and>
   atbash_dict ''ABCD'' =
     Inr [(CHR ''A'', CHR ''D''), (CHR ''B'', CHR ''C''), (CHR ''C'', CHR ''B''),
          (CHR ''D'', CHR ''A'')] \<and>
   encrypt_substitution ''BAD CAB!''
     [(CHR ''A'', CHR ''D''), (CHR ''B'', CHR ''C''), (CHR ''C'', CHR ''B''),
      (CHR ''D'', CHR ''A'')] = Inr ''CDA BDC!'' \<and>
   encrypt_substitution ''CDA BDC!''
     [(CHR ''A'', CHR ''D''), (CHR ''B'', CHR ''C''), (CHR ''C'', CHR ''B''),
      (CHR ''D'', CHR ''A'')] = Inr ''BAD CAB!''"
  using atbash_self_inverse [of "''ABCD''" "''BAD CAB!''"]
  by (simp add: atbash_dict_def affine_dict.simps py_range_def py_getitem_def py_mod_def
      upt_rec encrypt_substitution_def dict_keys_def dict_getitem_def)

section \<open>The shift cracker\<close>

text \<open>
  Claim C7. Over a non-empty alphabet of distinct symbols (an alphabet has no
  duplicates): the lookup of line 75 raises, and then \<^verbatim>\<open>StopIteration\<close>, exactly when no
  item of the table has the value \<^verbatim>\<open>alphabet[0]\<close>; every candidate that \<^verbatim>\<open>crack_shift\<close>
  builds has exactly one key sent to \<^verbatim>\<open>alphabet[0]\<close>; and \<^verbatim>\<open>crack_shift\<close> returns, with
  the text of \<^verbatim>\<open>generic_crack\<close>, the position in the alphabet of the key \<open>k\<close> that the
  winning table sends to \<^verbatim>\<open>alphabet[0]\<close>. The lookup finds \<open>k\<close> in whatever order the
  items of the winning table are read.
\<close>

theorem crack_shift_recovers_shift:
  fixes squared_differences :: "'f \<Rightarrow> 'f \<Rightarrow> 'd::linorder"
  assumes "alphabet \<noteq> []" "distinct alphabet"
  shows "(\<forall>items. (next_key_for items alphabet = Inl StopIteration \<longleftrightarrow>
                     alphabet ! 0 \<notin> snd ` set items) \<and>
                  (isl (next_key_for items alphabet) \<longleftrightarrow> alphabet ! 0 \<notin> snd ` set items)) \<and>
         (\<exists>candidates. crack_shift_candidates alphabet = Inr candidates \<and>
            (\<forall>d\<in>set candidates. \<exists>!k. (k, alphabet ! 0) \<in> set (dict_items d)) \<and>
            (\<exists>d plaintext k shift.
               generic_crack freq_text squared_differences ciphertext candidates frequencies
                 alphabet = Inr (d, plaintext) \<and>
               d \<in> set candidates \<and> (k, alphabet ! 0) \<in> set (dict_items d) \<and>
               (\<forall>items. set items = set (dict_items d) \<longrightarrow>
                  next_key_for items alphabet = Inr k) \<and>
               shift < length alphabet \<and> alphabet ! shift = k \<and>
               crack_shift freq_text squared_differences ciphertext alphabet frequencies =
                 Inr (shift, plaintext)))"
proof -
  let ?n = "length alphabet"
  define D where "D = (\<lambda>s. map (\<lambda>i. (alphabet ! i, alphabet ! ((i + s) mod ?n))) [0..<?n])"
  define cands where "cands = map D [0..<?n]"
  from assms(1) have n: "0 < ?n" by simp
  have lookup: "\<forall>items. (next_key_for items alphabet = Inl StopIteration \<longleftrightarrow>
                     alphabet ! 0 \<notin> snd ` set items) \<and>
                  (isl (next_key_for items alphabet) \<longleftrightarrow> alphabet ! 0 \<notin> snd ` set items)"
    using next_key_for_stop_iff [OF assms(1)] next_key_for_fails_iff [OF assms(1)] by blast
  have cs: "crack_shift_candidates alphabet = Inr cands"
    unfolding cands_def D_def using assms(2) by (rule crack_shift_candidates_distinct)
  have shape: "\<exists>s<?n. d = D s" if "d \<in> set cands" for d
  proof -
    from that have "d \<in> D ` set [0..<?n]" by (simp only: cands_def set_map)
    then obtain s where "s \<in> set [0..<?n]" "d = D s" by (elim imageE)
    then show ?thesis by auto
  qed
  have uniq: "\<exists>!k. (k, alphabet ! 0) \<in> set (dict_items d)" if "d \<in> set cands" for d
  proof -
    from shape [OF that] obtain s where s: "s < ?n" "d = D s" by blast
    from shift_unique_key [OF assms(2) assms(1) s(1)] show ?thesis
      by (simp only: dict_items_def s(2) D_def)
  qed
  from n have "cands \<noteq> []" by (simp add: cands_def)
  from generic_crack_argmin [OF this, of freq_text squared_differences ciphertext frequencies alphabet]
  obtain g plaintext where g: "g < length cands"
    and gc: "generic_crack freq_text squared_differences ciphertext cands frequencies alphabet =
               Inr (cands ! g, plaintext)"
    by blast
  define d where "d = cands ! g"
  from g have mem: "d \<in> set cands" unfolding d_def by (rule nth_mem)
  from uniq [OF mem] obtain k where k: "(k, alphabet ! 0) \<in> set (dict_items d)"
    and only: "\<And>k'. (k', alphabet ! 0) \<in> set (dict_items d) \<Longrightarrow> k' = k"
    by blast
  have nk: "next_key_for items alphabet = Inr k" if "set items = set (dict_items d)" for items
    using assms(1) k only unfolding that [symmetric] by (rule next_key_for_unique)
  from shape [OF mem] obtain s where s: "s < ?n" "d = D s" by blast
  from k have "(k, alphabet ! 0) \<in> (\<lambda>i. (alphabet ! i, alphabet ! ((i + s) mod ?n))) ` set [0..<?n]"
    by (simp only: dict_items_def s(2) D_def set_map)
  then obtain i where "i \<in> set [0..<?n]" "k = alphabet ! i" by (elim imageE) simp
  then have "k \<in> set alphabet" by simp
  from list_index_found [OF this] obtain shift where shift: "shift < ?n"
    "list_index alphabet k = Inr shift" "alphabet ! shift = k" by blast
  have gc': "generic_crack freq_text squared_differences ciphertext cands frequencies alphabet =
               Inr (d, plaintext)"
    using gc by (simp only: d_def)
  have cr: "crack_shift freq_text squared_differences ciphertext alphabet frequencies =
          Inr (shift, plaintext)"
    by (simp add: crack_shift_def cs gc' nk [OF refl] shift(2))
  have inner: "\<exists>d plaintext k shift.
               generic_crack freq_text squared_differences ciphertext cands frequencies
                 alphabet = Inr (d, plaintext) \<and>
               d \<in> set cands \<and> (k, alphabet ! 0) \<in> set (dict_items d) \<and>
               (\<forall>items. set items = set (dict_items d) \<longrightarrow>
                  next_key_for items alphabet = Inr k) \<and>
               shift < length alphabet \<and> alphabet ! shift = k \<and>
               crack_shift freq_text squared_differences ciphertext alphabet frequencies =
                 Inr (shift, plaintext)"
    using gc' mem k nk shift(1,3) cr by (intro exI [of _ d] exI [of _ plaintext] exI [of _ k] exI [of _ shift]) simp
  have "\<exists>candidates. crack_shift_candidates alphabet = Inr candidates \<and>
            (\<forall>d\<in>set candidates. \<exists>!k. (k, alphabet ! 0) \<in> set (dict_items d)) \<and>
            (\<exists>d plaintext k shift.
               generic_crack freq_text squared_differences ciphertext candidates frequencies
                 alphabet = Inr (d, plaintext) \<and>
               d \<in> set candidates \<and> (k, alphabet ! 0) \<in> set (dict_items d) \<and>
               (\<forall>items. set items = set (dict_items d) \<longrightarrow>
                  next_key_for items alphabet = Inr k) \<and>
               shift < length alphabet \<and> alphabet ! shift = k \<and>
               crack_shift freq_text squared_differences ciphertext alphabet frequencies =
                 Inr (shift, plaintext))"
  proof (intro exI [of _ cands] conjI ballI)
    show "crack_shift_candidates alphabet = Inr cands" by (rule cs)
    show "\<exists>!k. (k, alphabet ! 0) \<in> set (dict_items d)" if "d \<in> set cands" for d
      using that by (rule uniq)
    show "\<exists>d plaintext k shift.
               generic_crack freq_text squared_differences ciphertext cands frequencies
                 alphabet = Inr (d, plaintext) \<and>
               d \<in> set cands \<and> (k, alphabet ! 0) \<in> set (dict_items d) \<and>
               (\<forall>items. set items = set (dict_items d) \<longrightarrow>
                  next_key_for items alphabet = Inr k) \<and>
               shift < length alphabet \<and> alphabet ! shift = k \<and>
               crack_shift freq_text squared_differences ciphertext alphabet frequencies =
                 Inr (shift, plaintext)"
      by (rule inner)
  qed
  with lookup show ?thesis by (rule conjI)
qed

text \<open>
  The theorem at the alphabet \<^verbatim>\<open>"ABC"\<close> and the ciphertext \<^verbatim>\<open>"BBC"\<close>, the frequency
  being the count of each symbol and the target \<open>[2, 1, 0]\<close>: the third candidate wins,
  it sends \<^verbatim>\<open>B\<close> to \<^verbatim>\<open>A\<close>, and the shift reported is 1.
\<close>

theorem crack_shift_recovers_shift_witness:
  "''ABC'' \<noteq> [] \<and> distinct ''ABC'' \<and>
   crack_shift_candidates ''ABC'' =
     Inr [[(CHR ''A'', CHR ''A''), (CHR ''B'', CHR ''B''), (CHR ''C'', CHR ''C'')],
          [(CHR ''A'', CHR ''B''), (CHR ''B'', CHR ''C''), (CHR ''C'', CHR ''A'')],
          [(CHR ''A'', CHR ''C''), (CHR ''B'', CHR ''A''), (CHR ''C'', CHR ''B'')]] \<and>
   crack_shift (\<lambda>trial alphabet. map (\<lambda>a. int (count_list trial a)) alphabet)
     (\<lambda>f g. sum_list (map2 (\<lambda>x y. (x - y) * (x - y)) f g))
     ''BBC'' ''ABC'' [2, 1, 0] = Inr (1, ''AAB'')"
proof -
  have hyps: "''ABC'' \<noteq> []" "distinct ''ABC''" by simp_all
  have cands: "crack_shift_candidates ''ABC'' =
     Inr [[(CHR ''A'', CHR ''A''), (CHR ''B'', CHR ''B''), (CHR ''C'', CHR ''C'')],
          [(CHR ''A'', CHR ''B''), (CHR ''B'', CHR ''C''), (CHR ''C'', CHR ''A'')],
          [(CHR ''A'', CHR ''C''), (CHR ''B'', CHR ''A''), (CHR ''C'', CHR ''B'')]]"
    by (simp add: crack_shift_candidates_def shift_dict_def affine_dict.simps py_range_def
        upt_rec py_getitem_def py_mod_def)
  have run: "crack_shift (\<lambda>trial alphabet. map (\<lambda>a. int (count_list trial a)) alphabet)
     (\<lambda>f g. sum_list (map2 (\<lambda>x y. (x - y) * (x - y)) f g))
     ''BBC'' ''ABC'' [2, 1, 0] = Inr (1, ''AAB'')"
    by (simp add: crack_shift_def cands generic_crack_def candidate_distance_def
        encrypt_substitution_def dict_keys_def dict_getitem_def dict_items_def py_min_def
        list_index_def py_getitem_def)
  from crack_shift_recovers_shift [OF hyps,
      of "\<lambda>trial alphabet. map (\<lambda>a. int (count_list trial a)) alphabet"
         "\<lambda>f g. sum_list (map2 (\<lambda>x y. (x - y) * (x - y)) f g)" "''BBC''" "[2, 1, 0]"]
  obtain shift plaintext where
    "crack_shift (\<lambda>trial alphabet. map (\<lambda>a. int (count_list trial a)) alphabet)
       (\<lambda>f g. sum_list (map2 (\<lambda>x y. (x - y) * (x - y)) f g))
       ''BBC'' ''ABC'' [2, 1, 0] = Inr (shift, plaintext)" "shift < length ''ABC''"
    by blast
  with run have "shift = 1 \<and> plaintext = ''AAB''" by simp
  with hyps cands run show ?thesis by simp
qed

section \<open>Decryption after encryption\<close>

text \<open>
  Claim C6, as the code has it. \<^verbatim>\<open>decrypt_substitution\<close> inverts the whole table, so the
  keys that must not share a value are all the keys of the table, not only those that
  occur in the text. For every table and text: if no key occurring in the text shares
  its value with another key of the table, and no symbol of the text outside the keys is
  a value of the table, then decrypting the encrypted text gives the text back. In
  particular this holds for every table that is a bijection on an alphabet (keys and
  values are the symbols of the alphabet, no value twice) and every text.
\<close>

theorem substitution_round_trip:
  assumes "dict_wf mapping"
  shows "((\<forall>c\<in>set text. \<forall>k v. (c, v) \<in> set (dict_items mapping) \<and>
                                 (k, v) \<in> set (dict_items mapping) \<longrightarrow> k = c) \<and>
          (\<forall>c\<in>set text. c \<notin> set (dict_keys mapping) \<longrightarrow> c \<notin> set (dict_values mapping)) \<longrightarrow>
          res_bind (encrypt_substitution text mapping)
            (\<lambda>ciphertext. decrypt_substitution ciphertext mapping) = Inr text) \<and>
         (set (dict_keys mapping) = set alphabet \<and> set (dict_values mapping) = set alphabet \<and>
          distinct (dict_values mapping) \<longrightarrow>
          res_bind (encrypt_substitution text mapping)
            (\<lambda>ciphertext. decrypt_substitution ciphertext mapping) = Inr text)"
proof (intro conjI impI)
  assume h: "(\<forall>c\<in>set text. \<forall>k v. (c, v) \<in> set (dict_items mapping) \<and>
                                 (k, v) \<in> set (dict_items mapping) \<longrightarrow> k = c) \<and>
          (\<forall>c\<in>set text. c \<notin> set (dict_keys mapping) \<longrightarrow> c \<notin> set (dict_values mapping))"
  show "res_bind (encrypt_substitution text mapping)
          (\<lambda>ciphertext. decrypt_substitution ciphertext mapping) = Inr text"
  proof (rule round_trip_symbolwise)
    fix c k v assume "c \<in> set text" "(c, v) \<in> set mapping" "(k, v) \<in> set mapping"
    with h show "k = c" by (simp add: dict_items_def) blast
  next
    fix c assume "c \<in> set text" "c \<notin> fst ` set mapping"
    with h show "c \<notin> snd ` set mapping" by (simp add: dict_keys_def dict_values_def)
  qed
next
  assume b: "set (dict_keys mapping) = set alphabet \<and> set (dict_values mapping) = set alphabet \<and>
          distinct (dict_values mapping)"
  then have same: "fst ` set mapping = snd ` set mapping"
    by (simp add: dict_keys_def dict_values_def)
  from b have "inj_on snd (set mapping)" by (simp add: dict_values_def distinct_map)
  then have one: "p = q" if "p \<in> set mapping" "q \<in> set mapping" "snd p = snd q" for p q
    using that by (auto dest: inj_onD)
  show "res_bind (encrypt_substitution text mapping)
          (\<lambda>ciphertext. decrypt_substitution ciphertext mapping) = Inr text"
  proof (rule round_trip_symbolwise)
    fix c k v assume "c \<in> set text" "(c, v) \<in> set mapping" "(k, v) \<in> set mapping"
    from one [OF this(3) this(2)] show "k = c" by simp
  next
    fix c assume "c \<in> set text" "c \<notin> fst ` set mapping"
    then show "c \<notin> snd ` set mapping" by (simp add: same)
  qed
qed

text \<open>
  The theorem at the shift by one over \<^verbatim>\<open>"ABC"\<close> (a bijection) with the text
  \<^verbatim>\<open>"CAB, A!"\<close>, and at the injective table \<^verbatim>\<open>{A: X, B: Y}\<close> with the text \<^verbatim>\<open>"BAC"\<close>.
\<close>

theorem substitution_round_trip_witness:
  "dict_wf [(CHR ''A'', CHR ''B''), (CHR ''B'', CHR ''C''), (CHR ''C'', CHR ''A'')] \<and>
   set (dict_keys [(CHR ''A'', CHR ''B''), (CHR ''B'', CHR ''C''), (CHR ''C'', CHR ''A'')]) =
     set ''ABC'' \<and>
   set (dict_values [(CHR ''A'', CHR ''B''), (CHR ''B'', CHR ''C''), (CHR ''C'', CHR ''A'')]) =
     set ''ABC'' \<and>
   distinct (dict_values [(CHR ''A'', CHR ''B''), (CHR ''B'', CHR ''C''), (CHR ''C'', CHR ''A'')]) \<and>
   encrypt_substitution ''CAB, A!''
     [(CHR ''A'', CHR ''B''), (CHR ''B'', CHR ''C''), (CHR ''C'', CHR ''A'')] = Inr ''ABC, B!'' \<and>
   decrypt_substitution ''ABC, B!''
     [(CHR ''A'', CHR ''B''), (CHR ''B'', CHR ''C''), (CHR ''C'', CHR ''A'')] = Inr ''CAB, A!'' \<and>
   dict_wf [(CHR ''A'', CHR ''X''), (CHR ''B'', CHR ''Y'')] \<and>
   encrypt_substitution ''BAC'' [(CHR ''A'', CHR ''X''), (CHR ''B'', CHR ''Y'')] = Inr ''YXC'' \<and>
   decrypt_substitution ''YXC'' [(CHR ''A'', CHR ''X''), (CHR ''B'', CHR ''Y'')] = Inr ''BAC''"
proof -
  let ?m = "[(CHR ''A'', CHR ''B''), (CHR ''B'', CHR ''C''), (CHR ''C'', CHR ''A'')]"
  let ?c = "[(CHR ''A'', CHR ''X''), (CHR ''B'', CHR ''Y'')]"
  have wf: "dict_wf ?m" "dict_wf ?c" by (simp_all add: dict_wf_def)
  have bij: "set (dict_keys ?m) = set ''ABC'' \<and> set (dict_values ?m) = set ''ABC'' \<and>
             distinct (dict_values ?m)"
    by (auto simp: dict_keys_def dict_values_def)
  have part: "(\<forall>c\<in>set ''BAC''. \<forall>k v. (c, v) \<in> set (dict_items ?c) \<and>
                                 (k, v) \<in> set (dict_items ?c) \<longrightarrow> k = c) \<and>
          (\<forall>c\<in>set ''BAC''. c \<notin> set (dict_keys ?c) \<longrightarrow> c \<notin> set (dict_values ?c))"
    by (simp add: dict_items_def dict_keys_def dict_values_def)
  have enc: "encrypt_substitution ''CAB, A!'' ?m = Inr ''ABC, B!''"
    "encrypt_substitution ''BAC'' ?c = Inr ''YXC''"
    by (simp_all add: encrypt_substitution_def dict_keys_def dict_getitem_def)
  from substitution_round_trip [OF wf(1), of "''CAB, A!''" "''ABC''"] bij
  have 1: "decrypt_substitution ''ABC, B!'' ?m = Inr ''CAB, A!''"
    by (simp only: enc res_bind_simps)
  from substitution_round_trip [OF wf(2), of "''BAC''" "''ABC''"] part
  have 2: "decrypt_substitution ''YXC'' ?c = Inr ''BAC''"
    by (simp only: enc res_bind_simps)
  from wf bij enc 1 2 show ?thesis by simp
qed

text \<open>
  Claim C6 as stated asks for injectivity only over the symbols present in the text.
  The table \<^verbatim>\<open>{A: X, B: X}\<close> is injective over the one symbol of the text \<^verbatim>\<open>"A"\<close>, and
  no symbol of the text lies outside the keys; yet when the items are read in the order
  \<^verbatim>\<open>A, B\<close> the inverted table sends \<^verbatim>\<open>X\<close> to \<^verbatim>\<open>B\<close> and the round trip gives \<^verbatim>\<open>"B"\<close>.
  Read in the other order, the same happens to the text \<^verbatim>\<open>"B"\<close>: whatever the order of
  the items, one of the two texts is not recovered.
\<close>

theorem substitution_round_trip_collapsed_key:
  "dict_wf [(CHR ''A'', CHR ''X''), (CHR ''B'', CHR ''X'')] \<and>
   inj_on (map_of [(CHR ''A'', CHR ''X''), (CHR ''B'', CHR ''X'')])
     (set ''A'' \<inter> set (dict_keys [(CHR ''A'', CHR ''X''), (CHR ''B'', CHR ''X'')])) \<and>
   (set ''A'' - set (dict_keys [(CHR ''A'', CHR ''X''), (CHR ''B'', CHR ''X'')])) \<inter>
     set (dict_values [(CHR ''A'', CHR ''X''), (CHR ''B'', CHR ''X'')]) = {} \<and>
   res_bind (encrypt_substitution ''A'' [(CHR ''A'', CHR ''X''), (CHR ''B'', CHR ''X'')])
     (\<lambda>ciphertext. decrypt_substitution ciphertext
        [(CHR ''A'', CHR ''X''), (CHR ''B'', CHR ''X'')]) = Inr ''B'' \<and>
   dict_wf [(CHR ''B'', CHR ''X''), (CHR ''A'', CHR ''X'')] \<and>
   inj_on (map_of [(CHR ''B'', CHR ''X''), (CHR ''A'', CHR ''X'')])
     (set ''B'' \<inter> set (dict_keys [(CHR ''B'', CHR ''X''), (CHR ''A'', CHR ''X'')])) \<and>
   (set ''B'' - set (dict_keys [(CHR ''B'', CHR ''X''), (CHR ''A'', CHR ''X'')])) \<inter>
     set (dict_values [(CHR ''B'', CHR ''X''), (CHR ''A'', CHR ''X'')]) = {} \<and>
   res_bind (encrypt_substitution ''B'' [(CHR ''B'', CHR ''X''), (CHR ''A'', CHR ''X'')])
     (\<lambda>ciphertext. decrypt_substitution ciphertext
        [(CHR ''B'', CHR ''X''), (CHR ''A'', CHR ''X'')]) = Inr ''A''"
  by (simp add: dict_wf_def dict_keys_def dict_values_def dict_items_def
      encrypt_substitution_def decrypt_substitution_def dict_getitem_def)

section \<open>The affine cracker\<close>

text \<open>
  Claim C2 asks for the candidates of \<^verbatim>\<open>crack_affine\<close> to be the affine tables over the
  alphabet passed. On the alphabet \<^verbatim>\<open>"AB"\<close> the keys are those of the claim, \<open>(1, 0)\<close> and
  \<open>(1, 1)\<close>, but line 95 passes no alphabet to \<^verbatim>\<open>affine_dict\<close>: the candidates are the
  tables of these keys over the 26 upper case letters, not the two tables over
  \<^verbatim>\<open>"AB"\<close> (the last conjunct).
\<close>

theorem crack_affine_candidates_default_alphabet:
  "crack_affine_keys ''AB'' = [(1, 0), (1, 1)] \<and>
   crack_affine_candidates ''AB'' =
     Inr [[(CHR ''A'', CHR ''A''), (CHR ''B'', CHR ''B''), (CHR ''C'', CHR ''C''),
           (CHR ''D'', CHR ''D''), (CHR ''E'', CHR ''E''), (CHR ''F'', CHR ''F''),
           (CHR ''G'', CHR ''G''), (CHR ''H'', CHR ''H''), (CHR ''I'', CHR ''I''),
           (CHR ''J'', CHR ''J''), (CHR ''K'', CHR ''K''), (CHR ''L'', CHR ''L''),
           (CHR ''M'', CHR ''M''), (CHR ''N'', CHR ''N''), (CHR ''O'', CHR ''O''),
           (CHR ''P'', CHR ''P''), (CHR ''Q'', CHR ''Q''), (CHR ''R'', CHR ''R''),
           (CHR ''S'', CHR ''S''), (CHR ''T'', CHR ''T''), (CHR ''U'', CHR ''U''),
           (CHR ''V'', CHR ''V''), (CHR ''W'', CHR ''W''), (CHR ''X'', CHR ''X''),
           (CHR ''Y'', CHR ''Y''), (CHR ''Z'', CHR ''Z'')],
          [(CHR ''A'', CHR ''B''), (CHR ''B'', CHR ''C''), (CHR ''C'', CHR ''D''),
           (CHR ''D'', CHR ''E''), (CHR ''E'', CHR ''F''), (CHR ''F'', CHR ''G''),
           (CHR ''G'', CHR ''H''), (CHR ''H'', CHR ''I''), (CHR ''I'', CHR ''J''),
           (CHR ''J'', CHR ''K''), (CHR ''K'', CHR ''L''), (CHR ''L'', CHR ''M''),
           (CHR ''M'', CHR ''N''), (CHR ''N'', CHR ''O''), (CHR ''O'', CHR ''P''),
           (CHR ''P'', CHR ''Q''), (CHR ''Q'', CHR ''R''), (CHR ''R'', CHR ''S''),
           (CHR ''S'', CHR ''T''), (CHR ''T'', CHR ''U''), (CHR ''U'', CHR ''V''),
           (CHR ''V'', CHR ''W''), (CHR ''W'', CHR ''X''), (CHR ''X'', CHR ''Y''),
           (CHR ''Y'', CHR ''Z''), (CHR ''Z'', CHR ''A'')]] \<and>
   res_map (\<lambda>k. affine_dict k ''AB'') (crack_affine_keys ''AB'') =
     Inr [[(CHR ''A'', CHR ''A''), (CHR ''B'', CHR ''B'')],
          [(CHR ''A'', CHR ''B''), (CHR ''B'', CHR ''A'')]]"
proof (intro conjI)
  show "crack_affine_keys ''AB'' = [(1, 0), (1, 1)]" by (rule crack_affine_keys_AB)
  show "crack_affine_candidates ''AB'' =
     Inr [[(CHR ''A'', CHR ''A''), (CHR ''B'', CHR ''B''), (CHR ''C'', CHR ''C''),
           (CHR ''D'', CHR ''D''), (CHR ''E'', CHR ''E''), (CHR ''F'', CHR ''F''),
           (CHR ''G'', CHR ''G''), (CHR ''H'', CHR ''H''), (CHR ''I'', CHR ''I''),
           (CHR ''J'', CHR ''J''), (CHR ''K'', CHR ''K''), (CHR ''L'', CHR ''L''),
           (CHR ''M'', CHR ''M''), (CHR ''N'', CHR ''N''), (CHR ''O'', CHR ''O''),
           (CHR ''P'', CHR ''P''), (CHR ''Q'', CHR ''Q''), (CHR ''R'', CHR ''R''),
           (CHR ''S'', CHR ''S''), (CHR ''T'', CHR ''T''), (CHR ''U'', CHR ''U''),
           (CHR ''V'', CHR ''V''), (CHR ''W'', CHR ''W''), (CHR ''X'', CHR ''X''),
           (CHR ''Y'', CHR ''Y''), (CHR ''Z'', CHR ''Z'')],
          [(CHR ''A'', CHR ''B''), (CHR ''B'', CHR ''C''), (CHR ''C'', CHR ''D''),
           (CHR ''D'', CHR ''E''), (CHR ''E'', CHR ''F''), (CHR ''F'', CHR ''G''),
           (CHR ''G'', CHR ''H''), (CHR ''H'', CHR ''I''), (CHR ''I'', CHR ''J''),
           (CHR ''J'', CHR ''K''), (CHR ''K'', CHR ''L''), (CHR ''L'', CHR ''M''),
           (CHR ''M'', CHR ''N''), (CHR ''N'', CHR ''O''), (CHR ''O'', CHR ''P''),
           (CHR ''P'', CHR ''Q''), (CHR ''Q'', CHR ''R''), (CHR ''R'', CHR ''S''),
           (CHR ''S'', CHR ''T''), (CHR ''T'', CHR ''U''), (CHR ''U'', CHR ''V''),
           (CHR ''V'', CHR ''W''), (CHR ''W'', CHR ''X''), (CHR ''X'', CHR ''Y''),
           (CHR ''Y'', CHR ''Z''), (CHR ''Z'', CHR ''A'')]]"
    by (rule crack_affine_candidates_AB)
  show "res_map (\<lambda>k. affine_dict k ''AB'') (crack_affine_keys ''AB'') =
     Inr [[(CHR ''A'', CHR ''A''), (CHR ''B'', CHR ''B'')],
          [(CHR ''A'', CHR ''B''), (CHR ''B'', CHR ''A'')]]"
    by (simp add: crack_affine_keys_AB affine_dict.simps py_range_def upt_rec py_getitem_def
        py_mod_def)
qed

text \<open>
  Claim C3 asks for \<^verbatim>\<open>crack_affine\<close> to return the recovered text alone, as its
  docstring says. Line 96 returns the value of \<^verbatim>\<open>generic_crack\<close>: here, with the
  frequency being the number of \<^verbatim>\<open>A\<close>s and the target one, the pair of the winning table
  and the text.
\<close>

theorem crack_affine_returns_pair:
  "crack_affine (\<lambda>trial alphabet. int (count_list trial (CHR ''A'')))
     (\<lambda>f g. (f - g) * (f - g)) ''HZK'' ''AB'' 1 =
     Inr ([(CHR ''A'', CHR ''B''), (CHR ''B'', CHR ''C''), (CHR ''C'', CHR ''D''),
           (CHR ''D'', CHR ''E''), (CHR ''E'', CHR ''F''), (CHR ''F'', CHR ''G''),
           (CHR ''G'', CHR ''H''), (CHR ''H'', CHR ''I''), (CHR ''I'', CHR ''J''),
           (CHR ''J'', CHR ''K''), (CHR ''K'', CHR ''L''), (CHR ''L'', CHR ''M''),
           (CHR ''M'', CHR ''N''), (CHR ''N'', CHR ''O''), (CHR ''O'', CHR ''P''),
           (CHR ''P'', CHR ''Q''), (CHR ''Q'', CHR ''R''), (CHR ''R'', CHR ''S''),
           (CHR ''S'', CHR ''T''), (CHR ''T'', CHR ''U''), (CHR ''U'', CHR ''V''),
           (CHR ''V'', CHR ''W''), (CHR ''W'', CHR ''X''), (CHR ''X'', CHR ''Y''),
           (CHR ''Y'', CHR ''Z''), (CHR ''Z'', CHR ''A'')],
          ''IAL'')"
  by (simp add: crack_affine_def crack_affine_candidates_AB
      generic_crack_def candidate_distance_def encrypt_substitution_def dict_keys_def
      dict_getitem_def py_min_def list_index_def py_getitem_def)

end
